theory Spec2Isabelle
  imports Main
begin

section \<open>Characters and the cursor over a string view\<close>

text \<open>
  The source is \<^verbatim>\<open>lexerParser.cpp\<close>. A \<^verbatim>\<open>std::string_view\<close> is modelled by the list of the
  characters it still spans; \<^verbatim>\<open>remove_prefix(1)\<close> drops the head. The struct
  \<^verbatim>\<open>Matching\<close> holds nothing but a reference to the view, so every member function takes
  the view and returns it updated next to its result.

  The C++ abstract machine leaves two operations of the source undefined: indexing a view at
  or past its size, and dereferencing an empty \<^verbatim>\<open>std::optional\<close>. Both are results of
  the model.
\<close>

datatype fault = OutOfRange | EmptyOptional

text \<open>The null character, which the cursor returns as its sentinel.\<close>

definition NUL :: char where
  "NUL = CHR 0x00"

text \<open>
  Whether plain \<^verbatim>\<open>char\<close> is signed is fixed by the platform, not by the source, so it is a
  parameter \<open>sg\<close> of the model. \<open>char_to_int\<close> is the integral promotion of a
  \<^verbatim>\<open>char\<close>, \<open>int_to_char\<close> the conversion of an \<^verbatim>\<open>int\<close> to \<^verbatim>\<open>char\<close>
  (modulo \<open>2 ^ 8\<close>), and \<open>char_max\<close> is \<^verbatim>\<open>std::numeric_limits<char>::max()\<close>.
\<close>

definition char_to_int :: "bool \<Rightarrow> char \<Rightarrow> int" where
  "char_to_int sg c =
     (if sg \<and> 128 \<le> (of_char c :: int) then of_char c - 256 else of_char c)"

definition int_to_char :: "int \<Rightarrow> char" where
  "int_to_char i = char_of i"

definition char_max :: "bool \<Rightarrow> char" where
  "char_max sg = (if sg then CHR 0x7F else CHR 0xFF)"

text \<open>
  \<^verbatim>\<open>filt.find_first_of(c)\<close>: the position of the first occurrence of \<open>c\<close> in \<open>filt\<close>,
  \<open>None\<close> standing for \<^verbatim>\<open>npos\<close>.
\<close>

fun find_first_of :: "string \<Rightarrow> char \<Rightarrow> nat option" where
  "find_first_of [] c = None"
| "find_first_of (x # xs) c =
     (if x = c then Some 0 else map_option Suc (find_first_of xs c))"

definition matchAnyChar :: "string \<Rightarrow> char \<times> string" where
  "matchAnyChar ref =
     (case ref of
        c # rest \<Rightarrow> (c, rest)
      | [] \<Rightarrow> (NUL, ref))"

definition matchChar :: "char \<Rightarrow> string \<Rightarrow> bool \<times> string" where
  "matchChar c ref =
     (let accepting = (ref \<noteq> [] \<and> take 1 ref = [c])
      in if accepting then (accepting, drop 1 ref) else (accepting, ref))"

definition matchCharNotIn :: "string \<Rightarrow> string \<Rightarrow> char \<times> string" where
  "matchCharNotIn filt ref =
     (case ref of
        c # rest \<Rightarrow> (if find_first_of filt c = None then (c, rest) else (NUL, ref))
      | [] \<Rightarrow> (NUL, ref))"

text \<open>
  \<^verbatim>\<open>matchAnyCharIn\<close> looks the front character up in \<open>filt\<close> and then reads
  \<^verbatim>\<open>ref[pos]\<close>: the view is indexed with the position found in the filter.
\<close>

definition matchAnyCharIn :: "string \<Rightarrow> string \<Rightarrow> fault + (char \<times> string)" where
  "matchAnyCharIn filt ref =
     (case ref of
        front # rest \<Rightarrow>
          (case find_first_of filt front of
             Some pos \<Rightarrow>
               (if pos < length ref then Inr (ref ! pos, rest) else Inl OutOfRange)
           | None \<Rightarrow> Inr (NUL, ref))
      | [] \<Rightarrow> Inr (NUL, ref))"

section \<open>Parse tree\<close>

datatype Type = OR | AND | OPT | MANY | NONZERO | CHAR'

datatype RegexParserNode =
  RegexParserNode (type: Type) (subNodes: "RegexParserNode list") (begChar: char) (endChar: char)

text \<open>
  The constructor of the source takes the two characters as \<^verbatim>\<open>int\<close>, both defaulting to
  zero, and converts them to \<^verbatim>\<open>char\<close>.
\<close>

definition mkNode :: "Type \<Rightarrow> RegexParserNode list \<Rightarrow> int \<Rightarrow> int \<Rightarrow> RegexParserNode" where
  "mkNode t subs b e = RegexParserNode t subs (int_to_char b) (int_to_char e)"

text \<open>
  The members \<^verbatim>\<open>begChar\<close> and \<^verbatim>\<open>endChar\<close> are documented as the first character matched
  by the node and the one past the last character matched: a character belongs to the node
  when it lies in that half-open interval, compared as \<^verbatim>\<open>char\<close> values of the platform.
\<close>

definition inRange :: "bool \<Rightarrow> RegexParserNode \<Rightarrow> char \<Rightarrow> bool" where
  "inRange sg n c =
     (char_to_int sg (begChar n) \<le> char_to_int sg c \<and>
      char_to_int sg c < char_to_int sg (endChar n))"

section \<open>Grammar rules\<close>

type_synonym parse = "fault + (RegexParserNode option \<times> string)"

definition matchDot :: "bool \<Rightarrow> string \<Rightarrow> RegexParserNode option \<times> string" where
  "matchDot sg ref =
     (case matchChar CHR ''.'' ref of
        (True, r) \<Rightarrow> (Some (mkNode CHAR' [] 0 (char_to_int sg (char_max sg))), r)
      | (False, r) \<Rightarrow> (None, r))"

definition maybeEscape :: "char \<Rightarrow> char" where
  "maybeEscape c =
     (if c = CHR ''b'' then CHR 0x08
      else if c = CHR ''n'' then CHR 0x0A
      else if c = CHR ''f'' then CHR 0x0C
      else if c = CHR ''r'' then CHR 0x0D
      else if c = CHR ''t'' then CHR 0x09
      else c)"

text \<open>The backslash is \<open>CHR 0x5C\<close>. Neither \<^verbatim>\<open>if\<close> of the rule has an else branch that
  puts a consumed character back.\<close>

definition matchPossiblyEscapedChar :: "bool \<Rightarrow> string \<Rightarrow> RegexParserNode option \<times> string" where
  "matchPossiblyEscapedChar sg ref =
     (case matchCharNotIn ''|*+?()'' ref of (c, r1) \<Rightarrow>
        if c \<noteq> NUL then
          (case (if c = CHR 0x5C
                 then (case matchAnyChar r1 of (e, r2) \<Rightarrow> (maybeEscape e, r2))
                 else (c, r1)) of (d, r2) \<Rightarrow>
             if d \<noteq> NUL
             then (Some (mkNode CHAR' [] (char_to_int sg d) (char_to_int sg d + 1)), r2)
             else (None, r2))
        else (None, r1))"

text \<open>
  The four mutually recursive rules. Each returns the optional node and the view as the rule
  leaves it; \<open>backup\<close> is the copy of the view that the source restores.
  In \<^verbatim>\<open>matchAndAddPossiblyOrredExpr\<close> the node is built from \<^verbatim>\<open>*lhs\<close> without a test
  of \<^verbatim>\<open>lhs\<close>.
\<close>

function (domintros)
  matchSubExpr :: "bool \<Rightarrow> string \<Rightarrow> parse" and
  matchAndAddExprWithPossiblePostfix :: "bool \<Rightarrow> string \<Rightarrow> parse" and
  matchAndAddPossiblyAndedExpr :: "bool \<Rightarrow> string \<Rightarrow> parse" and
  matchAndAddPossiblyOrredExpr :: "bool \<Rightarrow> string \<Rightarrow> parse"
where
  "matchSubExpr sg ref =
     (let backup = ref in
      case matchChar CHR ''('' ref of
        (True, r1) \<Rightarrow>
          (case matchAndAddPossiblyOrredExpr sg r1 of
             Inl e \<Rightarrow> Inl e
           | Inr (Some s, r2) \<Rightarrow>
               (case matchChar CHR '')'' r2 of
                  (True, r3) \<Rightarrow> Inr (Some s, r3)
                | (False, r3) \<Rightarrow> Inr (None, backup))
           | Inr (None, r2) \<Rightarrow> Inr (None, backup))
      | (False, r1) \<Rightarrow> Inr (None, backup))"
| "matchAndAddExprWithPossiblePostfix sg ref =
     (case matchSubExpr sg ref of
        Inl e \<Rightarrow> Inl e
      | Inr (m1, r1) \<Rightarrow>
          (case (case m1 of
                   Some n \<Rightarrow> (m1, r1)
                 | None \<Rightarrow>
                     (case matchDot sg r1 of
                        (Some n, r2) \<Rightarrow> (Some n, r2)
                      | (None, r2) \<Rightarrow> matchPossiblyEscapedChar sg r2))
           of
             (None, r) \<Rightarrow> Inr (None, r)
           | (Some n, r) \<Rightarrow>
               (case matchAnyCharIn ''+?*'' r of
                  Inl e \<Rightarrow> Inl e
                | Inr (c, r') \<Rightarrow>
                    if c \<noteq> NUL
                    then Inr (Some (mkNode (if c = CHR ''+'' then NONZERO
                                            else if c = CHR ''?'' then OPT else MANY)
                                      [n] 0 0), r')
                    else Inr (Some n, r'))))"
| "matchAndAddPossiblyAndedExpr sg ref =
     (case matchAndAddExprWithPossiblePostfix sg ref of
        Inl e \<Rightarrow> Inl e
      | Inr (None, r1) \<Rightarrow> Inr (None, r1)
      | Inr (Some lhs, r1) \<Rightarrow>
          (case matchAndAddPossiblyAndedExpr sg r1 of
             Inl e \<Rightarrow> Inl e
           | Inr (Some rhs, r2) \<Rightarrow> Inr (Some (mkNode AND [lhs, rhs] 0 0), r2)
           | Inr (None, r2) \<Rightarrow> Inr (Some lhs, r2)))"
| "matchAndAddPossiblyOrredExpr sg ref =
     (case matchAndAddPossiblyAndedExpr sg ref of
        Inl e \<Rightarrow> Inl e
      | Inr (lhs, backup) \<Rightarrow>
          (case matchChar CHR ''|'' backup of
             (True, r1) \<Rightarrow>
               (case matchAndAddPossiblyAndedExpr sg r1 of
                  Inl e \<Rightarrow> Inl e
                | Inr (Some rhs, r2) \<Rightarrow>
                    (case lhs of
                       None \<Rightarrow> Inl EmptyOptional
                     | Some l \<Rightarrow> Inr (Some (mkNode OR [l, rhs] 0 0), r2))
                | Inr (None, r2) \<Rightarrow> Inr (lhs, backup))
           | (False, r1) \<Rightarrow> Inr (lhs, backup)))"
  by pat_completeness auto

text \<open>
  The driver. \<open>constant_evaluated\<close> is \<^verbatim>\<open>std::is_constant_evaluated()\<close>; the call
  \<^verbatim>\<open>t->printf()\<close> dereferences \<open>t\<close>, and what it prints is not modelled. The argument is a
  C string, so it holds no null character.
\<close>

definition test :: "bool \<Rightarrow> bool \<Rightarrow> string \<Rightarrow> fault + bool" where
  "test sg constant_evaluated str =
     (case matchAndAddPossiblyOrredExpr sg str of
        Inl e \<Rightarrow> Inl e
      | Inr (t, toParse) \<Rightarrow>
          if \<not> constant_evaluated
          then (case t of None \<Rightarrow> Inl EmptyOptional | Some n \<Rightarrow> Inr True)
          else Inr True)"

text \<open>
  Two notions used to state what the rules do on a longer input. \<open>dangling\<close> reads a view
  as the literal rule does, a backslash together with the character after it, and holds
  when the view ends in a backslash that escapes nothing. \<open>postfixOp\<close> is the second half
  of \<^verbatim>\<open>matchAndAddExprWithPossiblePostfix\<close>, the wrapping of an atom that was found.
\<close>

fun dangling :: "string \<Rightarrow> bool" where
  "dangling [] = False"
| "dangling [c] = (c = CHR 0x5C)"
| "dangling (c # d # cs) = (if c = CHR 0x5C then dangling cs else dangling (d # cs))"

definition postfixOp :: "RegexParserNode \<Rightarrow> string \<Rightarrow> parse" where
  "postfixOp n r =
     (case matchAnyCharIn ''+?*'' r of
        Inl e \<Rightarrow> Inl e
      | Inr (c, r') \<Rightarrow>
          if c \<noteq> NUL
          then Inr (Some (mkNode (if c = CHR ''+'' then NONZERO
                                  else if c = CHR ''?'' then OPT else MANY)
                            [n] 0 0), r')
          else Inr (Some n, r'))"

text \<open>
  The grammar of the specification (section 4.2), written from its words and not from the
  source: an atom is a parenthesised alternation, the dot, a character outside the reserved
  set \<^verbatim>\<open>| * + ? ( )\<close> that is not a backslash, or a backslash followed by any character;
  a postfix expression is an atom with at most one of \<^verbatim>\<open>+ ? *\<close> after it; a sequence is
  one or more postfix expressions with no separator; an alternation is one sequence or two
  sequences separated by a bar. The predicates hold of the strings of each syntactic class.
\<close>

inductive specAtom :: "string \<Rightarrow> bool"
  and specPostfix :: "string \<Rightarrow> bool"
  and specSequence :: "string \<Rightarrow> bool"
  and specAlternation :: "string \<Rightarrow> bool"
where
  group: "specAlternation w \<Longrightarrow> specAtom (CHR ''('' # w @ [CHR '')''])"
| wildcard: "specAtom [CHR ''.'']"
| literal: "c \<notin> set ''|*+?()'' \<Longrightarrow> c \<noteq> CHR 0x5C \<Longrightarrow> specAtom [c]"
| escaped: "specAtom [CHR 0x5C, x]"
| bare: "specAtom w \<Longrightarrow> specPostfix w"
| quantified: "specAtom w \<Longrightarrow> p \<in> set ''+?*'' \<Longrightarrow> specPostfix (w @ [p])"
| single: "specPostfix w \<Longrightarrow> specSequence w"
| juxtaposed: "specPostfix w \<Longrightarrow> specSequence v \<Longrightarrow> specSequence (w @ v)"
| sequence: "specSequence w \<Longrightarrow> specAlternation w"
| alternative: "specSequence w \<Longrightarrow> specSequence v \<Longrightarrow> specAlternation (w @ CHR ''|'' # v)"

section \<open>The cursor primitives\<close>

lemma matchChar_Nil [simp]: "matchChar c [] = (False, [])"
  by (simp add: matchChar_def)

lemma matchChar_Cons [simp]:
  "matchChar c (x # r) = (if x = c then (True, r) else (False, x # r))"
  by (auto simp: matchChar_def)

lemma matchChar_True [simp]: "matchChar c ref = (True, r) \<longleftrightarrow> ref = c # r"
  by (cases ref) auto

lemma matchChar_False [simp]:
  "matchChar c ref = (False, r) \<longleftrightarrow> r = ref \<and> (\<forall>t. ref \<noteq> c # t)"
  by (cases ref) auto

lemma matchDot_length:
  "matchDot sg ref = (m, r) \<Longrightarrow>
     length r \<le> length ref \<and> (m \<noteq> None \<longrightarrow> length r < length ref)"
  by (cases ref) (auto simp: matchDot_def split: if_splits)

lemma matchPossiblyEscapedChar_length:
  "matchPossiblyEscapedChar sg ref = (m, r) \<Longrightarrow>
     length r \<le> length ref \<and> (m \<noteq> None \<longrightarrow> length r < length ref)"
  by (cases ref; cases "tl ref")
     (auto simp: matchPossiblyEscapedChar_def matchCharNotIn_def matchAnyChar_def
           split: if_splits)

lemma matchAnyCharIn_length:
  "matchAnyCharIn filt ref = Inr (c, r) \<Longrightarrow> length r \<le> length ref"
  by (cases ref) (auto simp: matchAnyCharIn_def split: option.splits if_splits)

section \<open>Termination of the grammar rules\<close>

text \<open>
  The recursion is nested: the sequence rule calls itself on the view that the postfix rule
  leaves. On its domain every rule leaves a view no longer than the one it was given, and a
  group or a postfix expression that yields a node leaves a strictly shorter one.
\<close>

lemmas parser_pinduct =
  matchSubExpr_matchAndAddExprWithPossiblePostfix_matchAndAddPossiblyAndedExpr_matchAndAddPossiblyOrredExpr.pinduct

lemma parser_dom_length:
  "matchSubExpr_matchAndAddExprWithPossiblePostfix_matchAndAddPossiblyAndedExpr_matchAndAddPossiblyOrredExpr_dom
     (Inl (Inl (sg, ref)))
     \<Longrightarrow> (\<forall>m r. matchSubExpr sg ref = Inr (m, r) \<longrightarrow>
            length r \<le> length ref \<and> (m \<noteq> None \<longrightarrow> length r < length ref))"
  "matchSubExpr_matchAndAddExprWithPossiblePostfix_matchAndAddPossiblyAndedExpr_matchAndAddPossiblyOrredExpr_dom
     (Inl (Inr (sg1, ref1)))
     \<Longrightarrow> (\<forall>m r. matchAndAddExprWithPossiblePostfix sg1 ref1 = Inr (m, r) \<longrightarrow>
            length r \<le> length ref1 \<and> (m \<noteq> None \<longrightarrow> length r < length ref1))"
  "matchSubExpr_matchAndAddExprWithPossiblePostfix_matchAndAddPossiblyAndedExpr_matchAndAddPossiblyOrredExpr_dom
     (Inr (Inl (sg2, ref2)))
     \<Longrightarrow> (\<forall>m r. matchAndAddPossiblyAndedExpr sg2 ref2 = Inr (m, r) \<longrightarrow>
            length r \<le> length ref2)"
  "matchSubExpr_matchAndAddExprWithPossiblePostfix_matchAndAddPossiblyAndedExpr_matchAndAddPossiblyOrredExpr_dom
     (Inr (Inr (sg3, ref3)))
     \<Longrightarrow> (\<forall>m r. matchAndAddPossiblyOrredExpr sg3 ref3 = Inr (m, r) \<longrightarrow>
            length r \<le> length ref3)"
proof (induct rule: parser_pinduct)
  case (1 sg ref)
  have IH: "\<forall>m r. matchAndAddPossiblyOrredExpr sg y = Inr (m, r) \<longrightarrow> length r \<le> length y"
    if "ref = CHR ''('' # y" for y
    by (rule 1(2)[OF refl _ refl]) (simp add: that)
  show ?case
    using IH
    by (auto simp: matchSubExpr.psimps[OF 1(1)] Let_def
             split: prod.splits bool.splits sum.splits option.splits)
next
  case (2 sg ref)
  show ?case
    using 2(2)
    by (auto simp: matchAndAddExprWithPossiblePostfix.psimps[OF 2(1)]
             split: prod.splits sum.splits option.splits if_splits
             dest!: matchDot_length matchPossiblyEscapedChar_length matchAnyCharIn_length)
next
  case (3 sg ref)
  note IH = 3(3)[OF _ refl refl]
  show ?case
    using 3(2) IH
    by (auto simp: matchAndAddPossiblyAndedExpr.psimps[OF 3(1)]
             split: prod.splits sum.splits option.splits if_splits)
next
  case (4 sg ref)
  have IH: "\<forall>m r. matchAndAddPossiblyAndedExpr sg ya = Inr (m, r) \<longrightarrow> length r \<le> length ya"
    if "matchAndAddPossiblyAndedExpr sg ref = Inr (l, CHR ''|'' # ya)" for l ya
    by (rule 4(3)[OF that refl _ refl]) simp
  show ?case
    using 4(2) IH
    by (auto simp: matchAndAddPossiblyOrredExpr.psimps[OF 4(1)]
             split: prod.splits sum.splits option.splits if_splits bool.splits)
qed

termination matchSubExpr
proof (relation "measure (\<lambda>x. case x of
          Inl (Inl (sg, ref)) \<Rightarrow> 4 * length ref
        | Inl (Inr (sg, ref)) \<Rightarrow> 4 * length ref + 1
        | Inr (Inl (sg, ref)) \<Rightarrow> 4 * length ref + 2
        | Inr (Inr (sg, ref)) \<Rightarrow> 4 * length ref + 3)", goal_cases)
  case 1
  show ?case by simp
next
  case (2 sg ref x xa y)
  then have "matchChar CHR ''('' ref = (True, y)" by metis
  then show ?case by auto
next
  case (3 sg ref)
  show ?case by simp
next
  case (4 sg ref)
  show ?case by simp
next
  case (5 sg ref b x y x2)
  then show ?case using parser_dom_length(2)[of sg ref] by auto
next
  case (6 sg ref)
  show ?case by simp
next
  case (7 sg ref b x y xa ya)
  then have "matchChar CHR ''|'' y = (True, ya)" by metis
  with 7 show ?case using parser_dom_length(3)[of sg ref] by auto
qed

declare matchSubExpr.simps [simp del]
declare matchAndAddExprWithPossiblePostfix.simps [simp del]
declare matchAndAddPossiblyAndedExpr.simps [simp del]
declare matchAndAddPossiblyOrredExpr.simps [simp del]

lemmas rules_simps =
  matchSubExpr.simps matchAndAddExprWithPossiblePostfix.simps
  matchAndAddPossiblyAndedExpr.simps matchAndAddPossiblyOrredExpr.simps


section \<open>Evaluation\<close>

text \<open>
  Converting the promoted value of a character back gives the character, and the successor
  \<^verbatim>\<open>d+1\<close> converted to \<^verbatim>\<open>char\<close> does not depend on the signedness of the platform:
  it is the successor modulo \<open>2 ^ 8\<close>.
\<close>

lemma int_to_char_char_to_int [simp]: "int_to_char (char_to_int sg c) = c"
proof -
  have "char_of (of_char c - (256::int)) = char_of (of_char c :: int)"
    unfolding char_of_quasi_inj by simp
  also have "\<dots> = c" by (rule char_of_char)
  finally show ?thesis
    by (simp add: int_to_char_def char_to_int_def)
qed

lemma int_to_char_succ:
  "int_to_char (char_to_int sg c + 1) = int_to_char (of_char c + 1)"
proof -
  have "of_char c - (256::int) + 1 = (of_char c + 1) - 256" by simp
  then have "(of_char c - (256::int) + 1) mod 256 = (of_char c + 1) mod 256"
    by (simp only: minus_mod_self2)
  then have "char_of (of_char c - (256::int) + 1) = char_of (of_char c + (1::int))"
    unfolding char_of_quasi_inj .
  then show ?thesis
    by (simp add: int_to_char_def char_to_int_def)
qed

lemma int_to_char_0 [simp]: "int_to_char 0 = CHR 0x00"
  by (simp add: int_to_char_def char_of_def)

lemma int_to_char_numeral: "int_to_char (numeral k) = char_of (numeral k :: int)"
  by (simp add: int_to_char_def)

lemmas char_of_numeral = char_of_def [of "numeral k :: int" for k]

lemmas cursor_defs =
  matchDot_def matchPossiblyEscapedChar_def matchCharNotIn_def matchAnyChar_def
  matchAnyCharIn_def maybeEscape_def NUL_def mkNode_def

lemmas eval_simps =
  rules_simps cursor_defs int_to_char_succ int_to_char_numeral char_of_numeral

section \<open>The cursor primitive \<^verbatim>\<open>matchAnyCharIn\<close>\<close>

text \<open>
  C2. The claim: when the next character is in the set, \<^verbatim>\<open>matchAnyCharIn\<close> consumes it and
  returns it. The source returns \<^verbatim>\<open>ref[pos]\<close> with \<open>pos\<close> the position in the filter:
  on the view \<^verbatim>\<open>?x\<close> with the filter \<^verbatim>\<open>+?*\<close> it consumes the question mark and returns
  \<^verbatim>\<open>x\<close>; on \<^verbatim>\<open>*bc\<close> it consumes the star and returns \<^verbatim>\<open>c\<close>; on the
  one-character view \<^verbatim>\<open>?\<close> the read is outside the view.
\<close>

theorem matchAnyCharIn_reads_view_at_filter_index:
  "matchAnyCharIn ''+?*'' ''?x'' = Inr (CHR ''x'', ''x'') \<and>
   matchAnyCharIn ''+?*'' ''*bc'' = Inr (CHR ''c'', ''bc'') \<and>
   matchAnyCharIn ''+?*'' ''?'' = Inl OutOfRange"
  by (simp add: matchAnyCharIn_def)

text \<open>
  C3. The claim: the index \<^verbatim>\<open>ref[pos]\<close> is always inside the remaining view. The star is
  found at position 2 of the filter \<^verbatim>\<open>+?*\<close>, and when the star is the last character of
  the input the view has length 1: the driver run on \<^verbatim>\<open>a*\<close> reads outside the view,
  whatever the platform and whether or not the call is constant-evaluated.
\<close>

theorem view_index_out_of_bounds:
  "find_first_of ''+?*'' CHR ''*'' = Some 2 \<and> \<not> 2 < length ''*'' \<and>
   matchAnyCharIn ''+?*'' ''*'' = Inl OutOfRange \<and>
   test sg ce ''a*'' = Inl OutOfRange"
  by (simp add: test_def eval_simps)

section \<open>Postfix operators\<close>

text \<open>
  C1. The claim: an atom followed by \<^verbatim>\<open>+\<close>, \<^verbatim>\<open>?\<close> or \<^verbatim>\<open>*\<close> is wrapped in NONZERO,
  OPT or MANY. The operator is chosen from the character that \<^verbatim>\<open>matchAnyCharIn\<close>
  returns, which is not the operator consumed: \<^verbatim>\<open>a?\<close> and \<^verbatim>\<open>a*\<close> read outside the
  view, \<^verbatim>\<open>a?b\<close> yields MANY and \<^verbatim>\<open>a?+\<close> yields NONZERO where the claim has OPT.
\<close>

theorem postfix_question_star_misread:
  "matchAndAddExprWithPossiblePostfix sg ''a?'' = Inl OutOfRange \<and>
   matchAndAddExprWithPossiblePostfix sg ''a*'' = Inl OutOfRange \<and>
   matchAndAddExprWithPossiblePostfix sg ''a?b'' =
     Inr (Some (RegexParserNode MANY
                  [RegexParserNode CHAR' [] CHR ''a'' CHR ''b''] CHR 0x00 CHR 0x00), ''b'') \<and>
   matchAndAddExprWithPossiblePostfix sg ''a?+'' =
     Inr (Some (RegexParserNode NONZERO
                  [RegexParserNode CHAR' [] CHR ''a'' CHR ''b''] CHR 0x00 CHR 0x00), ''+'')"
  by (simp add: eval_simps)

section \<open>The wildcard\<close>

text \<open>
  C5. The claim: parsing \<^verbatim>\<open>.\<close> yields a CHAR node without children whose half-open range
  covers every character, the largest one included. The node has \<^verbatim>\<open>begChar\<close> zero and
  \<^verbatim>\<open>endChar\<close> the largest character, and \<^verbatim>\<open>endChar\<close> is one past the last character
  matched: the largest character is outside the range, on either kind of platform.
\<close>

theorem wildcard_range_excludes_char_max:
  "matchAndAddPossiblyOrredExpr sg ''.'' =
     Inr (Some (RegexParserNode CHAR' [] CHR 0x00 (char_max sg)), []) \<and>
   \<not> inRange sg (RegexParserNode CHAR' [] CHR 0x00 (char_max sg)) (char_max sg)"
  by (simp add: eval_simps inRange_def char_max_def char_to_int_def)

section \<open>A backslash at the end of the input\<close>

text \<open>
  C6. When the literal rule is entered on a view that is a single backslash, the backslash
  is consumed, the second consumption returns the null sentinel, and the rule yields no node
  and leaves the empty view: the cursor is one position past the entry point.
\<close>

theorem trailing_backslash_consumed:
  "matchCharNotIn ''|*+?()'' [CHR 0x5C] = (CHR 0x5C, []) \<and>
   matchAnyChar [] = (NUL, []) \<and>
   matchPossiblyEscapedChar sg [CHR 0x5C] = (None, [])"
  by (simp add: cursor_defs)

section \<open>The driver\<close>

text \<open>
  C10. The claim: \<^verbatim>\<open>test\<close> dereferences the result only when the parse produced a node.
  The only test in front of \<^verbatim>\<open>t->printf()\<close> is the one on constant evaluation; the
  test of \<open>t\<close> is in a comment. On the empty string the parse yields no node and the run-time
  call dereferences the empty optional.
\<close>

theorem test_dereferences_empty_optional:
  "matchAndAddPossiblyOrredExpr sg [] = Inr (None, []) \<and>
   test sg False [] = Inl EmptyOptional"
  by (simp add: test_def eval_simps)

section \<open>Grouping\<close>

text \<open>
  C7. The claim: for a syntactically valid \<open>E\<close>, the group \<^verbatim>\<open>(E)\<close> yields the tree of
  \<open>E\<close>. For \<open>E\<close> the expression \<^verbatim>\<open>a?\<close> the parse of \<open>E\<close> alone reads outside the view
  and produces no tree, and the parse of \<^verbatim>\<open>(a?)\<close> reads the closing parenthesis in place
  of the operator and yields MANY over the character, not OPT.
\<close>

theorem group_of_optional_differs:
  "matchAndAddPossiblyOrredExpr sg ''a?'' = Inl OutOfRange \<and>
   matchSubExpr sg ''(a?)'' =
     Inr (Some (RegexParserNode MANY
                  [RegexParserNode CHAR' [] CHR ''a'' CHR ''b''] CHR 0x00 CHR 0x00), [])"
  by (simp add: eval_simps)

section \<open>Failure and the cursor\<close>

lemma matchSubExpr_None: "matchSubExpr sg ref = Inr (None, r) \<Longrightarrow> r = ref"
  by (auto simp: matchSubExpr.simps Let_def
           split: prod.splits bool.splits sum.splits option.splits)

lemma matchDot_None: "matchDot sg ref = (None, r) \<Longrightarrow> r = ref"
  by (auto simp: matchDot_def split: prod.splits bool.splits)

lemma maybeEscape_NUL: "maybeEscape e = NUL \<longleftrightarrow> e = NUL"
  by (simp add: maybeEscape_def NUL_def)

lemmas maybeEscape_zero = maybeEscape_NUL [unfolded NUL_def]

lemma matchPossiblyEscapedChar_None:
  assumes "matchPossiblyEscapedChar sg ref = (None, r)"
    and "NUL \<notin> set ref" and "ref \<noteq> [CHR 0x5C]"
  shows "r = ref"
proof (cases ref)
  case Nil
  with assms show ?thesis
    by (simp add: matchPossiblyEscapedChar_def matchCharNotIn_def)
next
  case (Cons c cs)
  show ?thesis
  proof (cases cs)
    case Nil
    with Cons assms show ?thesis
      by (auto simp: matchPossiblyEscapedChar_def matchCharNotIn_def split: if_splits)
  next
    case (Cons d ds)
    with \<open>ref = c # cs\<close> assms show ?thesis
      by (auto simp: matchPossiblyEscapedChar_def matchCharNotIn_def matchAnyChar_def
                     maybeEscape_NUL
               split: if_splits)
  qed
qed

text \<open>A rule above the literal rule yields no node only when the rule below it does, and
  leaves the view that the rule below left.\<close>

lemma postfix_None:
  assumes "matchAndAddExprWithPossiblePostfix sg ref = Inr (None, r)"
  shows "matchPossiblyEscapedChar sg ref = (None, r)"
  using assms
  by (auto simp: matchAndAddExprWithPossiblePostfix.simps
           split: prod.splits sum.splits option.splits if_splits
           dest!: matchSubExpr_None matchDot_None)

lemma anded_None:
  assumes "matchAndAddPossiblyAndedExpr sg ref = Inr (None, r)"
  shows "matchAndAddExprWithPossiblePostfix sg ref = Inr (None, r)"
  using assms
  by (auto simp: matchAndAddPossiblyAndedExpr.simps
           split: prod.splits sum.splits option.splits if_splits)

lemma orred_None:
  assumes "matchAndAddPossiblyOrredExpr sg ref = Inr (None, r)"
  shows "matchAndAddPossiblyAndedExpr sg ref = Inr (None, r)"
  using assms
  by (auto simp: matchAndAddPossiblyOrredExpr.simps
           split: prod.splits sum.splits option.splits if_splits bool.splits)

lemma rules_Nil:
  "matchSubExpr sg [] = Inr (None, [])"
  "matchAndAddExprWithPossiblePostfix sg [] = Inr (None, [])"
  "matchAndAddPossiblyAndedExpr sg [] = Inr (None, [])"
  "matchAndAddPossiblyOrredExpr sg [] = Inr (None, [])"
  by (simp_all add: rules_simps cursor_defs)

text \<open>
  C4, as stated: every rule that yields no node leaves the cursor where it was. On the view
  that is a single backslash the postfix, sequence and alternation rules yield no node and
  leave the empty view.
\<close>

theorem failure_consumes_backslash_counterexample:
  "matchAndAddExprWithPossiblePostfix True [CHR 0x5C] = Inr (None, []) \<and>
   matchAndAddPossiblyAndedExpr True [CHR 0x5C] = Inr (None, []) \<and>
   matchAndAddPossiblyOrredExpr True [CHR 0x5C] = Inr (None, []) \<and>
   ([] :: string) \<noteq> [CHR 0x5C]"
  by (simp add: eval_simps)

text \<open>
  C4, amended: the grouping rule and the wildcard rule leave the cursor where it was whenever
  they yield no node; the literal, postfix, sequence and alternation rules do so on every
  view without a null character (the view of a C string) other than the view that is a
  single backslash.
\<close>

theorem failure_restores_cursor:
  "(matchSubExpr sg ref = Inr (None, r) \<longrightarrow> r = ref) \<and>
   (matchDot sg ref = (None, r) \<longrightarrow> r = ref) \<and>
   (NUL \<notin> set ref \<and> ref \<noteq> [CHR 0x5C] \<longrightarrow>
      (matchPossiblyEscapedChar sg ref = (None, r) \<longrightarrow> r = ref) \<and>
      (matchAndAddExprWithPossiblePostfix sg ref = Inr (None, r) \<longrightarrow> r = ref) \<and>
      (matchAndAddPossiblyAndedExpr sg ref = Inr (None, r) \<longrightarrow> r = ref) \<and>
      (matchAndAddPossiblyOrredExpr sg ref = Inr (None, r) \<longrightarrow> r = ref))"
  using matchSubExpr_None matchDot_None matchPossiblyEscapedChar_None
        postfix_None anded_None orred_None
  by blast

theorem failure_restores_cursor_witness:
  "matchSubExpr True ''(a'' = Inr (None, ''(a'') \<and>
   matchDot True ''(a'' = (None, ''(a'') \<and>
   NUL \<notin> set ''(a'' \<and> ''(a'' \<noteq> [CHR 0x5C] \<and>
   matchPossiblyEscapedChar True ''(a'' = (None, ''(a'') \<and>
   matchAndAddExprWithPossiblePostfix True ''(a'' = Inr (None, ''(a'') \<and>
   matchAndAddPossiblyAndedExpr True ''(a'' = Inr (None, ''(a'') \<and>
   matchAndAddPossiblyOrredExpr True ''(a'' = Inr (None, ''(a'')"
  using failure_restores_cursor [of True "''(a''" "''(a''"]
  by (simp add: eval_simps)

section \<open>Literals\<close>

text \<open>
  The promotion of a character to \<^verbatim>\<open>int\<close> is injective, and for a character below the
  largest one the successor \<^verbatim>\<open>d+1\<close> survives the conversion back to \<^verbatim>\<open>char\<close>: the
  node built by the literal rule then holds exactly the character \<open>d\<close>.
\<close>

lemma of_char_range: "0 \<le> (of_char c :: int) \<and> (of_char c :: int) < 256"
proof -
  have "0 \<le> (of_char c :: int) mod 256 \<and> (of_char c :: int) mod 256 < 256"
    by (intro conjI pos_mod_sign pos_mod_bound) simp_all
  then show ?thesis by (simp only: of_char_mod_256)
qed

lemma char_to_int_inj: "char_to_int sg x = char_to_int sg y \<longleftrightarrow> x = y"
  by (metis int_to_char_char_to_int)

lemma char_max_value: "c \<noteq> char_max sg \<Longrightarrow> (of_char c :: int) \<noteq> (if sg then 127 else 255)"
proof
  assume ne: "c \<noteq> char_max sg" and eq: "(of_char c :: int) = (if sg then 127 else 255)"
  have "c = char_of (of_char c :: int)" by simp
  also have "\<dots> = char_max sg" unfolding eq by (simp add: char_max_def char_of_numeral)
  finally show False using ne by simp
qed

lemma succ_no_wrap:
  assumes "c \<noteq> char_max sg"
  shows "char_to_int sg (int_to_char (char_to_int sg c + 1)) = char_to_int sg c + 1"
proof -
  let ?v = "of_char c :: int"
  have r: "0 \<le> ?v" "?v < 256" using of_char_range[of c] by simp_all
  have e: "(of_char (int_to_char (char_to_int sg c + 1)) :: int) = (?v + 1) mod 256"
    unfolding int_to_char_succ unfolding int_to_char_def by (rule of_char_of)
  have m: "?v \<noteq> (if sg then 127 else 255)" using assms by (rule char_max_value)
  show ?thesis
  proof (cases "?v = 255")
    case True
    with m have sg by (simp split: if_splits)
    with True e show ?thesis by (simp add: char_to_int_def)
  next
    case False
    with r have "(?v + 1) mod 256 = ?v + 1" by simp
    with e m r show ?thesis by (auto simp: char_to_int_def split: if_splits)
  qed
qed

lemma singleton_range:
  assumes "char_to_int sg e = char_to_int sg c + 1"
  shows "inRange sg (RegexParserNode CHAR' [] c e) x = (x = c)"
  using assms char_to_int_inj[of sg x c]
  by (auto simp: inRange_def)

text \<open>
  At the largest character the conversion of \<^verbatim>\<open>d+1\<close> overflows and no character lies
  in the range of the node. The statements on literals below leave that character out.
\<close>

lemma literal_at_char_max:
  "\<not> inRange sg (RegexParserNode CHAR' [] (char_max sg)
                   (int_to_char (char_to_int sg (char_max sg) + 1))) x"
proof (cases sg)
  case True
  have "int_to_char (char_to_int True CHR 0x7F + 1) = CHR 0x80"
    by (simp add: int_to_char_succ int_to_char_numeral char_of_numeral)
  with True of_char_range[of x] show ?thesis
    by (auto simp: inRange_def char_max_def char_to_int_def)
next
  case False
  have "int_to_char (char_to_int False CHR 0xFF + 1) = CHR 0x00"
    by (simp add: int_to_char_succ int_to_char_numeral char_of_numeral)
  with False of_char_range[of x] show ?thesis
    by (auto simp: inRange_def char_max_def char_to_int_def)
qed


text \<open>
  C9, as stated: a single character that is none of the seven listed yields a CHAR node
  spanning that character alone. The dot is none of the seven, and parsing it yields the
  wildcard node from zero to the largest character, not the node from the dot to the
  character after it.
\<close>

theorem single_dot_is_wildcard_counterexample:
  "CHR ''.'' \<notin> set ''|*+?()'' \<and> CHR ''.'' \<noteq> CHR 0x5C \<and>
   matchAndAddPossiblyOrredExpr True ''.'' =
     Inr (Some (RegexParserNode CHAR' [] CHR 0x00 CHR 0x7F), []) \<and>
   RegexParserNode CHAR' [] CHR 0x00 CHR 0x7F \<noteq> RegexParserNode CHAR' [] CHR ''.'' CHR ''/''"
  by (simp add: eval_simps char_max_def char_to_int_def)

text \<open>
  C9, amended: a single character \<open>c\<close> of a C string that is none of the seven listed, not
  the dot and not the largest character yields a CHAR node without children whose
  half-open range is \<open>[c, c+1)\<close>: \<^verbatim>\<open>begChar\<close> is \<open>c\<close>, the value of \<^verbatim>\<open>endChar\<close> is
  the value of \<open>c\<close> plus one, and \<open>c\<close> is the only character in the range; the whole
  input is consumed. A backslash followed by a character \<open>x\<close> of a C string yields the
  same for the value \<open>v\<close> of the escape table at \<open>x\<close>, when \<open>v\<close> is not the largest
  character; the table sends \<^verbatim>\<open>b n f r t\<close> to backspace, newline, form feed, carriage
  return and tab and any other character to itself.
\<close>

theorem literal_tree_shape:
  "(c \<notin> set ''|*+?()'' \<and> c \<noteq> CHR 0x5C \<and> c \<noteq> CHR ''.'' \<and> c \<noteq> NUL \<and>
    c \<noteq> char_max sg \<longrightarrow>
      matchAndAddPossiblyOrredExpr sg [c] =
        Inr (Some (RegexParserNode CHAR' [] c (int_to_char (char_to_int sg c + 1))), []) \<and>
      char_to_int sg (int_to_char (char_to_int sg c + 1)) = char_to_int sg c + 1 \<and>
      (\<forall>y. inRange sg (RegexParserNode CHAR' [] c (int_to_char (char_to_int sg c + 1))) y
             = (y = c))) \<and>
   (x \<noteq> NUL \<and> maybeEscape x \<noteq> char_max sg \<longrightarrow>
      matchAndAddPossiblyOrredExpr sg [CHR 0x5C, x] =
        Inr (Some (RegexParserNode CHAR' [] (maybeEscape x)
                     (int_to_char (char_to_int sg (maybeEscape x) + 1))), []) \<and>
      char_to_int sg (int_to_char (char_to_int sg (maybeEscape x) + 1)) =
        char_to_int sg (maybeEscape x) + 1 \<and>
      (\<forall>y. inRange sg (RegexParserNode CHAR' [] (maybeEscape x)
                          (int_to_char (char_to_int sg (maybeEscape x) + 1))) y
             = (y = maybeEscape x))) \<and>
   maybeEscape CHR ''b'' = CHR 0x08 \<and> maybeEscape CHR ''n'' = CHR 0x0A \<and>
   maybeEscape CHR ''f'' = CHR 0x0C \<and> maybeEscape CHR ''r'' = CHR 0x0D \<and>
   maybeEscape CHR ''t'' = CHR 0x09 \<and>
   (x \<notin> set ''bnfrt'' \<longrightarrow> maybeEscape x = x)"
proof -
  have lit: "matchPossiblyEscapedChar sg [c] =
      (Some (RegexParserNode CHAR' [] c (int_to_char (char_to_int sg c + 1))), [])"
    if "c \<notin> set ''|*+?()''" "c \<noteq> CHR 0x5C" "c \<noteq> NUL"
    using that
    by (auto simp: matchPossiblyEscapedChar_def matchCharNotIn_def mkNode_def)
  have esc: "matchPossiblyEscapedChar sg [CHR 0x5C, x] =
      (Some (RegexParserNode CHAR' [] (maybeEscape x)
               (int_to_char (char_to_int sg (maybeEscape x) + 1))), [])"
    if "x \<noteq> NUL"
    using that
    by (simp add: matchPossiblyEscapedChar_def matchCharNotIn_def matchAnyChar_def
                  maybeEscape_zero mkNode_def NUL_def)
  have top: "matchAndAddPossiblyOrredExpr sg ref = Inr (Some n, [])"
    if "matchPossiblyEscapedChar sg ref = (Some n, [])"
       "matchSubExpr sg ref = Inr (None, ref)" "matchDot sg ref = (None, ref)" for ref n
    using that
    by (simp add: matchAndAddPossiblyOrredExpr.simps[of sg ref]
                  matchAndAddPossiblyAndedExpr.simps[of sg ref]
                  matchAndAddExprWithPossiblePostfix.simps[of sg ref]
                  rules_Nil matchAnyCharIn_def NUL_def)
  have sub1: "matchSubExpr sg [c] = Inr (None, [c])" if "c \<notin> set ''|*+?()''"
    using that by (simp add: matchSubExpr.simps[of sg "[c]"])
  have sub2: "matchSubExpr sg [CHR 0x5C, x] = Inr (None, [CHR 0x5C, x])"
    by (simp add: matchSubExpr.simps[of sg "[CHR 0x5C, x]"])
  have dot1: "matchDot sg [c] = (None, [c])" if "c \<noteq> CHR ''.''"
    using that by (simp add: matchDot_def)
  have dot2: "matchDot sg [CHR 0x5C, x] = (None, [CHR 0x5C, x])"
    by (simp add: matchDot_def)
  have tab: "maybeEscape x = x" if "x \<notin> set ''bnfrt''"
    using that by (simp add: maybeEscape_def)
  have rng: "\<forall>y. inRange sg (RegexParserNode CHAR' [] d (int_to_char (char_to_int sg d + 1))) y
                 = (y = d)"
    if "d \<noteq> char_max sg" for d
    using singleton_range[OF succ_no_wrap[OF that]] by blast
  have one: "c \<notin> set ''|*+?()'' \<and> c \<noteq> CHR 0x5C \<and> c \<noteq> CHR ''.'' \<and> c \<noteq> NUL \<and>
    c \<noteq> char_max sg \<longrightarrow>
      matchAndAddPossiblyOrredExpr sg [c] =
        Inr (Some (RegexParserNode CHAR' [] c (int_to_char (char_to_int sg c + 1))), []) \<and>
      char_to_int sg (int_to_char (char_to_int sg c + 1)) = char_to_int sg c + 1 \<and>
      (\<forall>y. inRange sg (RegexParserNode CHAR' [] c (int_to_char (char_to_int sg c + 1))) y
             = (y = c))"
    using top[OF lit sub1 dot1] succ_no_wrap[of c sg] rng[of c] by blast
  have two: "x \<noteq> NUL \<and> maybeEscape x \<noteq> char_max sg \<longrightarrow>
      matchAndAddPossiblyOrredExpr sg [CHR 0x5C, x] =
        Inr (Some (RegexParserNode CHAR' [] (maybeEscape x)
                     (int_to_char (char_to_int sg (maybeEscape x) + 1))), []) \<and>
      char_to_int sg (int_to_char (char_to_int sg (maybeEscape x) + 1)) =
        char_to_int sg (maybeEscape x) + 1 \<and>
      (\<forall>y. inRange sg (RegexParserNode CHAR' [] (maybeEscape x)
                          (int_to_char (char_to_int sg (maybeEscape x) + 1))) y
             = (y = maybeEscape x))"
    using top[OF esc sub2 dot2] succ_no_wrap[of "maybeEscape x" sg] rng[of "maybeEscape x"]
    by blast
  have tbl: "maybeEscape CHR ''b'' = CHR 0x08 \<and> maybeEscape CHR ''n'' = CHR 0x0A \<and>
   maybeEscape CHR ''f'' = CHR 0x0C \<and> maybeEscape CHR ''r'' = CHR 0x0D \<and>
   maybeEscape CHR ''t'' = CHR 0x09"
    by (simp add: maybeEscape_def)
  from one two tbl tab show ?thesis by (intro conjI impI) blast+
qed

theorem literal_tree_shape_witness:
  "CHR ''a'' \<notin> set ''|*+?()'' \<and> CHR ''a'' \<noteq> CHR 0x5C \<and> CHR ''a'' \<noteq> CHR ''.'' \<and>
   CHR ''a'' \<noteq> NUL \<and> CHR ''a'' \<noteq> char_max True \<and>
   CHR ''n'' \<noteq> NUL \<and> maybeEscape CHR ''n'' \<noteq> char_max True \<and>
   CHR ''x'' \<notin> set ''bnfrt'' \<and> maybeEscape CHR ''x'' = CHR ''x'' \<and>
   matchAndAddPossiblyOrredExpr True ''a'' =
     Inr (Some (RegexParserNode CHAR' [] CHR ''a'' CHR ''b''), []) \<and>
   inRange True (RegexParserNode CHAR' [] CHR ''a'' CHR ''b'') CHR ''a'' \<and>
   \<not> inRange True (RegexParserNode CHAR' [] CHR ''a'' CHR ''b'') CHR ''b'' \<and>
   matchAndAddPossiblyOrredExpr True [CHR 0x5C, CHR ''n''] =
     Inr (Some (RegexParserNode CHAR' [] CHR 0x0A CHR 0x0B), []) \<and>
   inRange True (RegexParserNode CHAR' [] CHR 0x0A CHR 0x0B) CHR 0x0A"
proof -
  have s1: "int_to_char (char_to_int True CHR ''a'' + 1) = CHR ''b''"
    by (simp add: int_to_char_succ int_to_char_numeral char_of_numeral)
  have s2: "int_to_char (char_to_int True CHR 0x0A + 1) = CHR 0x0B"
    by (simp add: int_to_char_succ int_to_char_numeral char_of_numeral)
  have h: "CHR ''a'' \<notin> set ''|*+?()'' \<and> CHR ''a'' \<noteq> CHR 0x5C \<and> CHR ''a'' \<noteq> CHR ''.'' \<and>
   CHR ''a'' \<noteq> NUL \<and> CHR ''a'' \<noteq> char_max True \<and>
   CHR ''n'' \<noteq> NUL \<and> maybeEscape CHR ''n'' \<noteq> char_max True \<and>
   CHR ''x'' \<notin> set ''bnfrt''"
    by (simp add: NUL_def char_max_def maybeEscape_def)
  have e: "maybeEscape CHR ''n'' = CHR 0x0A" by (simp add: maybeEscape_def)
  from h literal_tree_shape [of "CHR ''a''" True "CHR ''n''"]
       literal_tree_shape [of "CHR ''a''" True "CHR ''x''"]
  show ?thesis
    unfolding e s1 s2 by blast
qed

section \<open>Alternation\<close>

text \<open>
  What a rule does on a view followed by \<^verbatim>\<open>|\<close> and more input, compared with what it
  does on the view alone. Either the rule returns the same node and leaves the same view
  with the extension appended, or it has stopped in front of an opening parenthesis (for
  the alternation rule, also in front of a bar), or it has reached the end of a view that
  ends in a dangling backslash. In every case a dangling backslash of the view left is one
  of the view given.
\<close>

lemma dangling_Cons [simp]: "c \<noteq> CHR 0x5C \<Longrightarrow> dangling (c # cs) = dangling cs"
  by (cases cs) auto

lemma reserved_bar: "find_first_of ''|*+?()'' CHR ''|'' \<noteq> None"
  by simp

lemma reserved_backslash: "find_first_of ''|*+?()'' CHR 0x5C = None"
  by simp

lemma backslash_not_NUL: "CHR 0x5C \<noteq> NUL"
  by (simp add: NUL_def)

lemma lit_Nil: "matchPossiblyEscapedChar sg [] = (None, [])"
  by (simp add: matchPossiblyEscapedChar_def matchCharNotIn_def)

lemma lit_Cons:
  "matchPossiblyEscapedChar sg (c # cs) =
     (if find_first_of ''|*+?()'' c \<noteq> None then (None, c # cs)
      else if c = NUL then (None, cs)
      else if c = CHR 0x5C then
        (case cs of
           [] \<Rightarrow> (None, [])
         | e # es \<Rightarrow>
             if maybeEscape e = NUL then (None, es)
             else (Some (mkNode CHAR' [] (char_to_int sg (maybeEscape e))
                           (char_to_int sg (maybeEscape e) + 1)), es))
      else (Some (mkNode CHAR' [] (char_to_int sg c) (char_to_int sg c + 1)), cs))"
proof (cases "find_first_of ''|*+?()'' c = None")
  case False
  then show ?thesis
    by (simp add: matchPossiblyEscapedChar_def matchCharNotIn_def del: find_first_of.simps not_None_eq)
next
  case True
  show ?thesis
  proof (cases cs)
    case Nil
    with True show ?thesis
      by (simp add: matchPossiblyEscapedChar_def matchCharNotIn_def matchAnyChar_def
                    maybeEscape_NUL backslash_not_NUL
               del: find_first_of.simps not_None_eq)
  next
    case (Cons e es)
    with True show ?thesis
      by (simp add: matchPossiblyEscapedChar_def matchCharNotIn_def matchAnyChar_def
                    maybeEscape_NUL backslash_not_NUL
               del: find_first_of.simps not_None_eq)
  qed
qed

lemma lit_ext:
  assumes "matchPossiblyEscapedChar sg ref = (r, rest)"
  shows "(dangling rest \<longrightarrow> dangling ref) \<and>
         (matchPossiblyEscapedChar sg (ref @ CHR ''|'' # t) = (r, rest @ CHR ''|'' # t) \<or>
          (rest = [] \<and> dangling ref))"
proof (cases ref)
  case Nil
  with assms show ?thesis
    by (simp add: lit_Nil lit_Cons reserved_bar del: find_first_of.simps not_None_eq)
next
  case (Cons c cs)
  show ?thesis
  proof (cases "find_first_of ''|*+?()'' c = None")
    case False
    with Cons assms show ?thesis
      by (auto simp: lit_Cons simp del: find_first_of.simps not_None_eq)
  next
    case True
    show ?thesis
    proof (cases "c = CHR 0x5C")
      case False
      with True Cons assms show ?thesis
        by (auto simp: lit_Cons simp del: find_first_of.simps not_None_eq split: if_splits)
    next
      case bs: True
      show ?thesis
      proof (cases cs)
        case Nil
        with bs True Cons assms show ?thesis
          by (auto simp: lit_Cons backslash_not_NUL simp del: find_first_of.simps not_None_eq)
      next
        case (Cons e es)
        with bs True \<open>ref = c # cs\<close> assms show ?thesis
          by (auto simp: lit_Cons backslash_not_NUL simp del: find_first_of.simps not_None_eq split: if_splits)
      qed
    qed
  qed
qed

lemma dot_ext:
  assumes "matchDot sg ref = (r, rest)"
  shows "(dangling rest \<longrightarrow> dangling ref) \<and>
         matchDot sg (ref @ CHR ''|'' # t) = (r, rest @ CHR ''|'' # t)"
  using assms by (cases ref) (auto simp: matchDot_def split: if_splits)

lemma anyIn_ext:
  assumes "matchAnyCharIn ''+?*'' ref = Inr (c, rest)"
  shows "(dangling rest \<longrightarrow> dangling ref) \<and>
         matchAnyCharIn ''+?*'' (ref @ CHR ''|'' # t) = Inr (c, rest @ CHR ''|'' # t)"
proof (cases ref)
  case Nil
  with assms show ?thesis by (simp add: matchAnyCharIn_def)
next
  case (Cons x xs)
  have bs: "find_first_of ''+?*'' CHR 0x5C = None" by simp
  show ?thesis
  proof (cases "find_first_of ''+?*'' x")
    case None
    with Cons assms show ?thesis
      by (auto simp: matchAnyCharIn_def simp del: find_first_of.simps not_None_eq)
  next
    case (Some pos)
    with bs have "x \<noteq> CHR 0x5C" by auto
    with Some Cons assms show ?thesis
      using nth_append[of "x # xs" "CHR ''|'' # t" pos]
      by (auto simp: matchAnyCharIn_def simp del: find_first_of.simps not_None_eq
               split: if_splits)
  qed
qed


lemma sub_ext:
  assumes IH: "\<And>y r rest. ref = CHR ''('' # y \<Longrightarrow>
                 matchAndAddPossiblyOrredExpr sg y = Inr (r, rest) \<Longrightarrow>
                 (dangling rest \<longrightarrow> dangling y) \<and>
                 (matchAndAddPossiblyOrredExpr sg (y @ CHR ''|'' # t) =
                    Inr (r, rest @ CHR ''|'' # t) \<or>
                  (\<exists>u. rest = CHR ''('' # u) \<or> (\<exists>u. rest = CHR ''|'' # u) \<or> rest = [])"
    and res: "matchSubExpr sg ref = Inr (r, rest)"
  shows "(dangling rest \<longrightarrow> dangling ref) \<and>
         (matchSubExpr sg (ref @ CHR ''|'' # t) = Inr (r, rest @ CHR ''|'' # t) \<or>
          (r = None \<and> (\<exists>u. rest = CHR ''('' # u)) \<or> (rest = [] \<and> dangling ref))"
proof (cases ref)
  case Nil
  with res show ?thesis
    by (simp add: matchSubExpr.simps[of sg "[]"] matchSubExpr.simps[of sg "CHR ''|'' # t"])
next
  case (Cons c y)
  show ?thesis
  proof (cases "c = CHR ''(''")
    case False
    then have a: "matchSubExpr sg (c # y) = Inr (None, c # y)"
      by (simp add: matchSubExpr.simps[of sg "c # y"])
    from False have b: "matchSubExpr sg ((c # y) @ CHR ''|'' # t) =
        Inr (None, (c # y) @ CHR ''|'' # t)"
      by (simp add: matchSubExpr.simps[of sg "c # y @ CHR ''|'' # t"])
    from a b res show ?thesis unfolding Cons by auto
  next
    case True
    show ?thesis
    proof (cases r)
      case None
      with res have "rest = ref" by (simp add: matchSubExpr_None)
      with None Cons True show ?thesis by simp
    next
      case (Some n)
      from res Some Cons True obtain r3 where
        inner: "matchAndAddPossiblyOrredExpr sg y = Inr (Some n, CHR '')'' # r3)"
        and r3: "rest = r3"
        by (auto simp: matchSubExpr.simps[of sg "CHR ''('' # y"] Let_def
                 split: sum.splits option.splits prod.splits bool.splits if_splits)
      from IH[OF _ inner] Cons True have
        d: "dangling (CHR '')'' # r3) \<longrightarrow> dangling y" and
        e: "matchAndAddPossiblyOrredExpr sg (y @ CHR ''|'' # t) =
              Inr (Some n, (CHR '')'' # r3) @ CHR ''|'' # t)"
        by auto
      from e have "matchSubExpr sg (ref @ CHR ''|'' # t) = Inr (Some n, r3 @ CHR ''|'' # t)"
        using Cons True
        by (simp add: matchSubExpr.simps[of sg "CHR ''('' # y @ CHR ''|'' # t"])
      with d r3 Some Cons True show ?thesis by simp
    qed
  qed
qed


lemma postfix_Some:
  assumes "matchSubExpr sg ref = Inr (Some n, r1)"
  shows "matchAndAddExprWithPossiblePostfix sg ref = postfixOp n r1"
  using assms by (simp add: matchAndAddExprWithPossiblePostfix.simps[of sg ref] postfixOp_def)

lemma postfix_dot:
  assumes "matchSubExpr sg ref = Inr (None, ref)" "matchDot sg ref = (Some n, r1)"
  shows "matchAndAddExprWithPossiblePostfix sg ref = postfixOp n r1"
  using assms by (simp add: matchAndAddExprWithPossiblePostfix.simps[of sg ref] postfixOp_def)

lemma postfix_lit_Some:
  assumes "matchSubExpr sg ref = Inr (None, ref)" "matchDot sg ref = (None, ref)"
    "matchPossiblyEscapedChar sg ref = (Some n, r1)"
  shows "matchAndAddExprWithPossiblePostfix sg ref = postfixOp n r1"
  using assms by (simp add: matchAndAddExprWithPossiblePostfix.simps[of sg ref] postfixOp_def)

lemma postfix_lit_None:
  assumes "matchSubExpr sg ref = Inr (None, ref)" "matchDot sg ref = (None, ref)"
    "matchPossiblyEscapedChar sg ref = (None, r1)"
  shows "matchAndAddExprWithPossiblePostfix sg ref = Inr (None, r1)"
  using assms by (simp add: matchAndAddExprWithPossiblePostfix.simps[of sg ref])

lemma postfixOp_ext:
  assumes "postfixOp n r1 = Inr (r, rest)"
  shows "(dangling rest \<longrightarrow> dangling r1) \<and> r \<noteq> None \<and> (r1 = [] \<longrightarrow> rest = []) \<and>
         postfixOp n (r1 @ CHR ''|'' # t) = Inr (r, rest @ CHR ''|'' # t)"
proof -
  from assms obtain c where any: "matchAnyCharIn ''+?*'' r1 = Inr (c, rest)"
    by (auto simp: postfixOp_def split: sum.splits if_splits)
  from any have "r1 = [] \<longrightarrow> rest = []"
    by (auto simp: matchAnyCharIn_def)
  with anyIn_ext[OF any, of t] any assms show ?thesis
    by (auto simp: postfixOp_def split: if_splits)
qed

lemma post_ext:
  assumes IH: "\<And>r rest. matchSubExpr sg ref = Inr (r, rest) \<Longrightarrow>
                 (dangling rest \<longrightarrow> dangling ref) \<and>
                 (matchSubExpr sg (ref @ CHR ''|'' # t) = Inr (r, rest @ CHR ''|'' # t) \<or>
                  (r = None \<and> (\<exists>u. rest = CHR ''('' # u)) \<or> (rest = [] \<and> dangling ref))"
    and res: "matchAndAddExprWithPossiblePostfix sg ref = Inr (r, rest)"
  shows "(dangling rest \<longrightarrow> dangling ref) \<and>
         (matchAndAddExprWithPossiblePostfix sg (ref @ CHR ''|'' # t) =
            Inr (r, rest @ CHR ''|'' # t) \<or>
          (r = None \<and> (\<exists>u. rest = CHR ''('' # u)) \<or> (rest = [] \<and> dangling ref))"
proof -
  let ?s = "CHR ''|'' # t"
  from res obtain m1 r1 where sub: "matchSubExpr sg ref = Inr (m1, r1)"
    by (auto simp: matchAndAddExprWithPossiblePostfix.simps[of sg ref] split: sum.splits)
  note I = IH[OF sub]
  show ?thesis
  proof (cases m1)
    case (Some n)
    with sub res have op: "postfixOp n r1 = Inr (r, rest)"
      by (simp add: postfix_Some)
    note O = postfixOp_ext[OF op, of t]
    from I Some consider
      (same) "matchSubExpr sg (ref @ ?s) = Inr (Some n, r1 @ ?s)" | (dang) "r1 = []" "dangling ref"
      by auto
    then show ?thesis
    proof cases
      case same
      then have "matchAndAddExprWithPossiblePostfix sg (ref @ ?s) = Inr (r, rest @ ?s)"
        using O by (simp add: postfix_Some)
      with I O show ?thesis by auto
    next
      case dang
      with O show ?thesis by simp
    qed
  next
    case None
    with sub have r1: "r1 = ref" by (simp add: matchSubExpr_None)
    note sub' = sub[unfolded None r1]
    show ?thesis
    proof (cases "\<exists>u. ref = CHR ''('' # u")
      case True
      then obtain u where u: "ref = CHR ''('' # u" by auto
      have "matchPossiblyEscapedChar sg ref = (None, ref)"
        unfolding u by (simp add: lit_Cons)
      moreover have "matchDot sg ref = (None, ref)"
        unfolding u by (simp add: matchDot_def)
      ultimately have "matchAndAddExprWithPossiblePostfix sg ref = Inr (None, ref)"
        using sub' by (simp add: postfix_lit_None)
      with res True show ?thesis by auto
    next
      case False
      with I None r1 have subx: "matchSubExpr sg (ref @ ?s) = Inr (None, ref @ ?s)"
        by auto
      obtain md rd where dot: "matchDot sg ref = (md, rd)" by force
      note D = dot_ext[OF dot, of t]
      show ?thesis
      proof (cases md)
        case (Some n)
        with sub' dot res have op: "postfixOp n rd = Inr (r, rest)"
          by (simp add: postfix_dot)
        note O = postfixOp_ext[OF op, of t]
        from subx D Some O
        have "matchAndAddExprWithPossiblePostfix sg (ref @ ?s) = Inr (r, rest @ ?s)"
          by (simp add: postfix_dot)
        with D O show ?thesis by auto
      next
        case dn: None
        with dot have rd: "rd = ref" by (simp add: matchDot_None)
        note dot' = dot[unfolded dn rd]
        from D dn rd have dotx: "matchDot sg (ref @ ?s) = (None, ref @ ?s)" by simp
        obtain ml rl where lit: "matchPossiblyEscapedChar sg ref = (ml, rl)" by force
        note L = lit_ext[OF lit, of t]
        show ?thesis
        proof (cases ml)
          case None
          with sub' dot' lit res have rr: "r = None" "rest = rl"
            by (simp_all add: postfix_lit_None)
          from L consider
            (same) "matchPossiblyEscapedChar sg (ref @ ?s) = (ml, rl @ ?s)"
            | (dang) "rl = []" "dangling ref"
            by auto
          then show ?thesis
          proof cases
            case same
            with subx dotx None
            have "matchAndAddExprWithPossiblePostfix sg (ref @ ?s) = Inr (None, rl @ ?s)"
              by (simp add: postfix_lit_None)
            with rr L show ?thesis by auto
          next
            case dang
            with rr show ?thesis by simp
          qed
        next
          case (Some n)
          with sub' dot' lit res have op: "postfixOp n rl = Inr (r, rest)"
            by (simp add: postfix_lit_Some)
          note O = postfixOp_ext[OF op, of t]
          from L consider
            (same) "matchPossiblyEscapedChar sg (ref @ ?s) = (ml, rl @ ?s)"
            | (dang) "rl = []" "dangling ref"
            by auto
          then show ?thesis
          proof cases
            case same
            with subx dotx Some O
            have "matchAndAddExprWithPossiblePostfix sg (ref @ ?s) = Inr (r, rest @ ?s)"
              by (simp add: postfix_lit_Some)
            with O L show ?thesis by auto
          next
            case dang
            with O show ?thesis by simp
          qed
        qed
      qed
    qed
  qed
qed


lemma anded_of_None:
  assumes "matchAndAddExprWithPossiblePostfix sg ref = Inr (None, r1)"
  shows "matchAndAddPossiblyAndedExpr sg ref = Inr (None, r1)"
  using assms by (simp add: matchAndAddPossiblyAndedExpr.simps[of sg ref])

lemma anded_of_Some:
  assumes "matchAndAddExprWithPossiblePostfix sg ref = Inr (Some lhs, r1)"
  shows "matchAndAddPossiblyAndedExpr sg ref =
     (case matchAndAddPossiblyAndedExpr sg r1 of
        Inl e \<Rightarrow> Inl e
      | Inr (Some rhs, r2) \<Rightarrow> Inr (Some (mkNode AND [lhs, rhs] 0 0), r2)
      | Inr (None, r2) \<Rightarrow> Inr (Some lhs, r2))"
  using assms by (simp add: matchAndAddPossiblyAndedExpr.simps[of sg ref])

lemma and_ext:
  assumes IHp: "\<And>r rest. matchAndAddExprWithPossiblePostfix sg ref = Inr (r, rest) \<Longrightarrow>
                 (dangling rest \<longrightarrow> dangling ref) \<and>
                 (matchAndAddExprWithPossiblePostfix sg (ref @ CHR ''|'' # t) =
                    Inr (r, rest @ CHR ''|'' # t) \<or>
                  (r = None \<and> (\<exists>u. rest = CHR ''('' # u)) \<or> (rest = [] \<and> dangling ref))"
    and IHr: "\<And>l y r rest. matchAndAddExprWithPossiblePostfix sg ref = Inr (Some l, y) \<Longrightarrow>
                 matchAndAddPossiblyAndedExpr sg y = Inr (r, rest) \<Longrightarrow>
                 (dangling rest \<longrightarrow> dangling y) \<and>
                 (matchAndAddPossiblyAndedExpr sg (y @ CHR ''|'' # t) =
                    Inr (r, rest @ CHR ''|'' # t) \<or>
                  (\<exists>u. rest = CHR ''('' # u) \<or> (rest = [] \<and> dangling y))"
    and res: "matchAndAddPossiblyAndedExpr sg ref = Inr (r, rest)"
  shows "(dangling rest \<longrightarrow> dangling ref) \<and>
         (matchAndAddPossiblyAndedExpr sg (ref @ CHR ''|'' # t) =
            Inr (r, rest @ CHR ''|'' # t) \<or>
          (\<exists>u. rest = CHR ''('' # u) \<or> (rest = [] \<and> dangling ref))"
proof -
  let ?s = "CHR ''|'' # t"
  from res obtain l r1 where post: "matchAndAddExprWithPossiblePostfix sg ref = Inr (l, r1)"
    by (auto simp: matchAndAddPossiblyAndedExpr.simps[of sg ref] split: sum.splits)
  note I = IHp[OF post]
  show ?thesis
  proof (cases l)
    case None
    with post res have rr: "r = None" "rest = r1"
      by (simp_all add: anded_of_None)
    from I None consider
      (same) "matchAndAddExprWithPossiblePostfix sg (ref @ ?s) = Inr (None, r1 @ ?s)"
      | (stuck) "\<exists>u. r1 = CHR ''('' # u" | (dang) "r1 = []" "dangling ref"
      by auto
    then show ?thesis
    proof cases
      case same
      then have "matchAndAddPossiblyAndedExpr sg (ref @ ?s) = Inr (None, r1 @ ?s)"
        by (rule anded_of_None)
      with rr I show ?thesis by simp
    next
      case stuck
      with rr I show ?thesis by simp
    next
      case dang
      with rr show ?thesis by simp
    qed
  next
    case (Some lhs)
    note post' = post[unfolded Some]
    from res obtain r2 where a: "matchAndAddPossiblyAndedExpr sg r1 = Inr (r2, rest)"
      and r: "r = (case r2 of Some rhs \<Rightarrow> Some (mkNode AND [lhs, rhs] 0 0) | None \<Rightarrow> Some lhs)"
      by (auto simp: anded_of_Some[OF post'] split: sum.splits option.splits)
    note J = IHr[OF post' a]
    from I J have al: "dangling rest \<longrightarrow> dangling ref" by simp
    from I Some consider
      (same) "matchAndAddExprWithPossiblePostfix sg (ref @ ?s) = Inr (Some lhs, r1 @ ?s)"
      | (dang) "r1 = []" "dangling ref"
      by auto
    then show ?thesis
    proof cases
      case same
      from J consider
        (same2) "matchAndAddPossiblyAndedExpr sg (r1 @ ?s) = Inr (r2, rest @ ?s)"
        | (stuck2) "\<exists>u. rest = CHR ''('' # u" | (dang2) "rest = []" "dangling r1"
        by auto
      then show ?thesis
      proof cases
        case same2
        with r have "matchAndAddPossiblyAndedExpr sg (ref @ ?s) = Inr (r, rest @ ?s)"
          by (simp add: anded_of_Some[OF same] split: option.splits)
        with al show ?thesis by simp
      next
        case stuck2
        with al show ?thesis by simp
      next
        case dang2
        with I al show ?thesis by simp
      qed
    next
      case dang
      with a have "rest = []" by (simp add: rules_Nil)
      with dang show ?thesis by simp
    qed
  qed
qed

lemma orred_of_nobar:
  assumes "matchAndAddPossiblyAndedExpr sg ref = Inr (lhs, b)" "\<forall>u. b \<noteq> CHR ''|'' # u"
  shows "matchAndAddPossiblyOrredExpr sg ref = Inr (lhs, b)"
  using assms
  by (cases b) (simp_all add: matchAndAddPossiblyOrredExpr.simps[of sg ref])

lemma orred_of_bar:
  assumes "matchAndAddPossiblyAndedExpr sg ref = Inr (lhs, CHR ''|'' # y)"
  shows "matchAndAddPossiblyOrredExpr sg ref =
     (case matchAndAddPossiblyAndedExpr sg y of
        Inl e \<Rightarrow> Inl e
      | Inr (Some rhs, r2) \<Rightarrow>
          (case lhs of
             None \<Rightarrow> Inl EmptyOptional
           | Some l \<Rightarrow> Inr (Some (mkNode OR [l, rhs] 0 0), r2))
      | Inr (None, r2) \<Rightarrow> Inr (lhs, CHR ''|'' # y))"
  using assms by (simp add: matchAndAddPossiblyOrredExpr.simps[of sg ref])

lemma or_ext:
  assumes IHa: "\<And>r rest. matchAndAddPossiblyAndedExpr sg ref = Inr (r, rest) \<Longrightarrow>
                 (dangling rest \<longrightarrow> dangling ref) \<and>
                 (matchAndAddPossiblyAndedExpr sg (ref @ CHR ''|'' # t) =
                    Inr (r, rest @ CHR ''|'' # t) \<or>
                  (\<exists>u. rest = CHR ''('' # u) \<or> (rest = [] \<and> dangling ref))"
    and IHr: "\<And>l y r rest. matchAndAddPossiblyAndedExpr sg ref = Inr (l, CHR ''|'' # y) \<Longrightarrow>
                 matchAndAddPossiblyAndedExpr sg y = Inr (r, rest) \<Longrightarrow>
                 (dangling rest \<longrightarrow> dangling y) \<and>
                 (matchAndAddPossiblyAndedExpr sg (y @ CHR ''|'' # t) =
                    Inr (r, rest @ CHR ''|'' # t) \<or>
                  (\<exists>u. rest = CHR ''('' # u) \<or> (rest = [] \<and> dangling y))"
    and res: "matchAndAddPossiblyOrredExpr sg ref = Inr (r, rest)"
  shows "(dangling rest \<longrightarrow> dangling ref) \<and>
         (matchAndAddPossiblyOrredExpr sg (ref @ CHR ''|'' # t) =
            Inr (r, rest @ CHR ''|'' # t) \<or>
          (\<exists>u. rest = CHR ''('' # u) \<or> (\<exists>u. rest = CHR ''|'' # u) \<or> rest = [])"
proof -
  let ?s = "CHR ''|'' # t"
  from res obtain lhs b where a: "matchAndAddPossiblyAndedExpr sg ref = Inr (lhs, b)"
    by (auto simp: matchAndAddPossiblyOrredExpr.simps[of sg ref] split: sum.splits)
  note I = IHa[OF a]
  show ?thesis
  proof (cases "\<exists>y. b = CHR ''|'' # y")
    case False
    with a res have rr: "r = lhs" "rest = b"
      by (simp_all add: orred_of_nobar)
    show ?thesis
    proof (cases "matchAndAddPossiblyAndedExpr sg (ref @ ?s) = Inr (lhs, b @ ?s) \<and> b \<noteq> []")
      case True
      with False have "matchAndAddPossiblyOrredExpr sg (ref @ ?s) = Inr (lhs, b @ ?s)"
        by (intro orred_of_nobar) (auto simp: append_eq_Cons_conv)
      with rr I show ?thesis by simp
    next
      case False
      with rr I show ?thesis by auto
    qed
  next
    case True
    then obtain y where b: "b = CHR ''|'' # y" by auto
    note a' = a[unfolded b]
    from I b have ax: "matchAndAddPossiblyAndedExpr sg (ref @ ?s) = Inr (lhs, CHR ''|'' # y @ ?s)"
      and al: "dangling y \<longrightarrow> dangling ref"
      by auto
    from res obtain r2 r3 where c: "matchAndAddPossiblyAndedExpr sg y = Inr (r2, r3)"
      by (auto simp: orred_of_bar[OF a'] split: sum.splits)
    note J = IHr[OF a' c]
    show ?thesis
    proof (cases r2)
      case None
      with res c have "r = lhs" "rest = CHR ''|'' # y"
        by (simp_all add: orred_of_bar[OF a'])
      with al show ?thesis by simp
    next
      case (Some rhs)
      with res c obtain l where l: "lhs = Some l" and rr: "r = Some (mkNode OR [l, rhs] 0 0)"
        "rest = r3"
        by (auto simp: orred_of_bar[OF a'] split: option.splits)
      from J consider
        (same) "matchAndAddPossiblyAndedExpr sg (y @ ?s) = Inr (r2, r3 @ ?s)"
        | (other) "(\<exists>u. r3 = CHR ''('' # u) \<or> r3 = []"
        by auto
      then show ?thesis
      proof cases
        case same
        with Some l rr have "matchAndAddPossiblyOrredExpr sg (ref @ ?s) = Inr (r, rest @ ?s)"
          by (simp add: orred_of_bar[OF ax])
        with J al rr show ?thesis by simp
      next
        case other
        with J al rr show ?thesis by auto
      qed
    qed
  qed
qed


lemmas parser_induct =
  matchSubExpr_matchAndAddExprWithPossiblePostfix_matchAndAddPossiblyAndedExpr_matchAndAddPossiblyOrredExpr.induct

lemma rules_ext:
  "\<forall>r rest. matchSubExpr sg a = Inr (r, rest) \<longrightarrow>
     (dangling rest \<longrightarrow> dangling a) \<and>
     (matchSubExpr sg (a @ CHR ''|'' # t) = Inr (r, rest @ CHR ''|'' # t) \<or>
      (r = None \<and> (\<exists>u. rest = CHR ''('' # u)) \<or> (rest = [] \<and> dangling a))"
  "\<forall>r rest. matchAndAddExprWithPossiblePostfix sg b = Inr (r, rest) \<longrightarrow>
     (dangling rest \<longrightarrow> dangling b) \<and>
     (matchAndAddExprWithPossiblePostfix sg (b @ CHR ''|'' # t) =
        Inr (r, rest @ CHR ''|'' # t) \<or>
      (r = None \<and> (\<exists>u. rest = CHR ''('' # u)) \<or> (rest = [] \<and> dangling b))"
  "\<forall>r rest. matchAndAddPossiblyAndedExpr sg c = Inr (r, rest) \<longrightarrow>
     (dangling rest \<longrightarrow> dangling c) \<and>
     (matchAndAddPossiblyAndedExpr sg (c @ CHR ''|'' # t) = Inr (r, rest @ CHR ''|'' # t) \<or>
      (\<exists>u. rest = CHR ''('' # u) \<or> (rest = [] \<and> dangling c))"
  "\<forall>r rest. matchAndAddPossiblyOrredExpr sg d = Inr (r, rest) \<longrightarrow>
     (dangling rest \<longrightarrow> dangling d) \<and>
     (matchAndAddPossiblyOrredExpr sg (d @ CHR ''|'' # t) = Inr (r, rest @ CHR ''|'' # t) \<or>
      (\<exists>u. rest = CHR ''('' # u) \<or> (\<exists>u. rest = CHR ''|'' # u) \<or> rest = [])"
proof (induct sg a and sg b and sg c and sg d rule: parser_induct)
  case (1 sg ref)
  have IH: "\<forall>r rest. matchAndAddPossiblyOrredExpr sg y = Inr (r, rest) \<longrightarrow>
     (dangling rest \<longrightarrow> dangling y) \<and>
     (matchAndAddPossiblyOrredExpr sg (y @ CHR ''|'' # t) = Inr (r, rest @ CHR ''|'' # t) \<or>
      (\<exists>u. rest = CHR ''('' # u) \<or> (\<exists>u. rest = CHR ''|'' # u) \<or> rest = [])"
    if "ref = CHR ''('' # y" for y
    by (rule 1[OF refl _ refl]) (simp add: that)
  show ?case
  proof (intro allI impI)
    fix r rest
    assume res: "matchSubExpr sg ref = Inr (r, rest)"
    show "(dangling rest \<longrightarrow> dangling ref) \<and>
          (matchSubExpr sg (ref @ CHR ''|'' # t) = Inr (r, rest @ CHR ''|'' # t) \<or>
           (r = None \<and> (\<exists>u. rest = CHR ''('' # u)) \<or> (rest = [] \<and> dangling ref))"
    proof (rule sub_ext[OF _ res])
      fix y r' rest'
      assume h: "ref = CHR ''('' # y" "matchAndAddPossiblyOrredExpr sg y = Inr (r', rest')"
      from IH[OF h(1), rule_format, OF h(2)]
      show "(dangling rest' \<longrightarrow> dangling y) \<and>
         (matchAndAddPossiblyOrredExpr sg (y @ CHR ''|'' # t) = Inr (r', rest' @ CHR ''|'' # t) \<or>
          (\<exists>u. rest' = CHR ''('' # u) \<or> (\<exists>u. rest' = CHR ''|'' # u) \<or> rest' = [])" .
    qed
  qed
next
  case (2 sg ref)
  show ?case
  proof (intro allI impI)
    fix r rest
    assume res: "matchAndAddExprWithPossiblePostfix sg ref = Inr (r, rest)"
    show "(dangling rest \<longrightarrow> dangling ref) \<and>
          (matchAndAddExprWithPossiblePostfix sg (ref @ CHR ''|'' # t) =
             Inr (r, rest @ CHR ''|'' # t) \<or>
           (r = None \<and> (\<exists>u. rest = CHR ''('' # u)) \<or> (rest = [] \<and> dangling ref))"
      by (rule post_ext[OF 2[rule_format] res])
  qed
next
  case (3 sg ref)
  note IHr = 3(2)[OF _ refl refl, rule_format]
  show ?case
  proof (intro allI impI)
    fix r rest
    assume res: "matchAndAddPossiblyAndedExpr sg ref = Inr (r, rest)"
    show "(dangling rest \<longrightarrow> dangling ref) \<and>
          (matchAndAddPossiblyAndedExpr sg (ref @ CHR ''|'' # t) =
             Inr (r, rest @ CHR ''|'' # t) \<or>
           (\<exists>u. rest = CHR ''('' # u) \<or> (rest = [] \<and> dangling ref))"
      by (rule and_ext[OF 3(1)[rule_format] IHr res])
  qed
next
  case (4 sg ref)
  have IHr: "\<forall>r rest. matchAndAddPossiblyAndedExpr sg y = Inr (r, rest) \<longrightarrow>
     (dangling rest \<longrightarrow> dangling y) \<and>
     (matchAndAddPossiblyAndedExpr sg (y @ CHR ''|'' # t) = Inr (r, rest @ CHR ''|'' # t) \<or>
      (\<exists>u. rest = CHR ''('' # u) \<or> (rest = [] \<and> dangling y))"
    if "matchAndAddPossiblyAndedExpr sg ref = Inr (l, CHR ''|'' # y)" for l y
    by (rule 4(2)[OF that refl _ refl]) simp
  show ?case
  proof (intro allI impI)
    fix r rest
    assume res: "matchAndAddPossiblyOrredExpr sg ref = Inr (r, rest)"
    show "(dangling rest \<longrightarrow> dangling ref) \<and>
          (matchAndAddPossiblyOrredExpr sg (ref @ CHR ''|'' # t) =
             Inr (r, rest @ CHR ''|'' # t) \<or>
           (\<exists>u. rest = CHR ''('' # u) \<or> (\<exists>u. rest = CHR ''|'' # u) \<or> rest = [])"
      by (rule or_ext[OF 4(1)[rule_format] IHr[rule_format] res])
  qed
qed

lemma anded_before_bar:
  assumes "matchAndAddPossiblyAndedExpr sg A = Inr (r, [])" "\<not> dangling A"
  shows "matchAndAddPossiblyAndedExpr sg (A @ CHR ''|'' # t) = Inr (r, CHR ''|'' # t)"
  using rules_ext(3)[of sg A t] assms by auto

text \<open>
  No string of the grammar ends in a dangling backslash: the literal of the grammar takes a
  backslash only together with the character after it.
\<close>

lemma dangling_append: "\<not> dangling a \<Longrightarrow> dangling (a @ b) = dangling b"
  by (induction a rule: dangling.induct) (auto split: if_splits)

lemma spec_not_dangling:
  "specAtom a \<Longrightarrow> \<not> dangling a"
  "specPostfix b \<Longrightarrow> \<not> dangling b"
  "specSequence c \<Longrightarrow> \<not> dangling c"
  "specAlternation d \<Longrightarrow> \<not> dangling d"
proof (induction rule: specAtom_specPostfix_specSequence_specAlternation.inducts)
  case (group w)
  then show ?case by (simp add: dangling_append)
next
  case (quantified w p)
  then show ?case by (auto simp: dangling_append)
qed (simp_all add: dangling_append)

lemma orred_of_two_sequences:
  assumes "matchAndAddPossiblyAndedExpr sg A = Inr (Some ta, [])"
    and "matchAndAddPossiblyAndedExpr sg B = Inr (Some tb, rb)"
    and "\<not> dangling A"
  shows "matchAndAddPossiblyOrredExpr sg (A @ CHR ''|'' # B) =
           Inr (Some (RegexParserNode OR [ta, tb] CHR 0x00 CHR 0x00), rb)"
proof -
  from assms have "matchAndAddPossiblyAndedExpr sg (A @ CHR ''|'' # B) =
      Inr (Some ta, CHR ''|'' # B)"
    by (simp add: anded_before_bar)
  with assms show ?thesis
    by (simp add: orred_of_bar mkNode_def)
qed

text \<open>
  The sequence rule of the source also returns a tree, with the whole view consumed, on the
  two characters \<open>a\<close>, backslash, which is not a sequence of the grammar; followed by a
  bar the backslash escapes the bar. This is why the statement below is about sequences of
  the grammar.
\<close>

lemma sequence_rule_on_dangling_backslash:
  "\<not> specSequence [CHR ''a'', CHR 0x5C] \<and>
   matchAndAddPossiblyAndedExpr True [CHR ''a'', CHR 0x5C] =
     Inr (Some (RegexParserNode CHAR' [] CHR ''a'' CHR ''b''), []) \<and>
   matchAndAddPossiblyOrredExpr True ([CHR ''a'', CHR 0x5C] @ CHR ''|'' # ''b'') =
     Inr (Some (RegexParserNode AND
            [RegexParserNode CHAR' [] CHR ''a'' CHR ''b'',
             RegexParserNode AND
               [RegexParserNode CHAR' [] CHR ''|'' CHR ''}'',
                RegexParserNode CHAR' [] CHR ''b'' CHR ''c''] CHR 0x00 CHR 0x00]
            CHR 0x00 CHR 0x00), [])"
proof -
  have "dangling [CHR ''a'', CHR 0x5C]" by simp
  then have "\<not> specSequence [CHR ''a'', CHR 0x5C]"
    using spec_not_dangling(3) by blast
  then show ?thesis by (simp add: eval_simps)
qed

text \<open>
  C8. For sequences \<open>A\<close> and \<open>B\<close> of the grammar that each parse successfully (the
  sequence rule returns a tree and consumes the whole input), parsing \<^verbatim>\<open>A|B\<close> yields the
  OR node whose left child is the tree of \<open>A\<close> and whose right child is the tree of \<open>B\<close>.
  When the bar is consumed and the right-hand sequence yields no node, the alternation rule
  returns the result of the left sequence alone, with the cursor in front of the bar.
\<close>

theorem alternation_of_sequences:
  "(specSequence A \<and> specSequence B \<and>
    matchAndAddPossiblyAndedExpr sg A = Inr (Some ta, []) \<and>
    matchAndAddPossiblyAndedExpr sg B = Inr (Some tb, []) \<longrightarrow>
      matchAndAddPossiblyOrredExpr sg (A @ CHR ''|'' # B) =
        Inr (Some (RegexParserNode OR [ta, tb] CHR 0x00 CHR 0x00), [])) \<and>
   (matchAndAddPossiblyAndedExpr sg ref = Inr (lhs, CHR ''|'' # r1) \<and>
    matchAndAddPossiblyAndedExpr sg r1 = Inr (None, r2) \<longrightarrow>
      matchAndAddPossiblyOrredExpr sg ref = Inr (lhs, CHR ''|'' # r1))"
  using orred_of_two_sequences spec_not_dangling(3)
  by (auto simp: orred_of_bar)

theorem alternation_of_sequences_witness:
  "specSequence ''ab'' \<and> specSequence ''c'' \<and>
   matchAndAddPossiblyAndedExpr True ''ab'' =
     Inr (Some (RegexParserNode AND [RegexParserNode CHAR' [] CHR ''a'' CHR ''b'',
                  RegexParserNode CHAR' [] CHR ''b'' CHR ''c''] CHR 0x00 CHR 0x00), []) \<and>
   matchAndAddPossiblyAndedExpr True ''c'' =
     Inr (Some (RegexParserNode CHAR' [] CHR ''c'' CHR ''d''), []) \<and>
   matchAndAddPossiblyOrredExpr True (''ab'' @ CHR ''|'' # ''c'') =
     Inr (Some (RegexParserNode OR
            [RegexParserNode AND [RegexParserNode CHAR' [] CHR ''a'' CHR ''b'',
               RegexParserNode CHAR' [] CHR ''b'' CHR ''c''] CHR 0x00 CHR 0x00,
             RegexParserNode CHAR' [] CHR ''c'' CHR ''d''] CHR 0x00 CHR 0x00), []) \<and>
   matchAndAddPossiblyAndedExpr True ''a|)'' =
     Inr (Some (RegexParserNode CHAR' [] CHR ''a'' CHR ''b''), CHR ''|'' # '')'') \<and>
   matchAndAddPossiblyAndedExpr True '')'' = Inr (None, '')'') \<and>
   matchAndAddPossiblyOrredExpr True ''a|)'' =
     Inr (Some (RegexParserNode CHAR' [] CHR ''a'' CHR ''b''), CHR ''|'' # '')'')"
proof -
  have pa: "specPostfix ''a''" and pb: "specPostfix ''b''" and pc: "specPostfix ''c''"
    by (simp_all add: bare literal)
  from juxtaposed[OF pa single[OF pb]] have sa: "specSequence ''ab''" by simp
  from pc have sc: "specSequence ''c''" by (rule single)
  have a: "matchAndAddPossiblyAndedExpr True ''ab'' =
     Inr (Some (RegexParserNode AND [RegexParserNode CHAR' [] CHR ''a'' CHR ''b'',
                  RegexParserNode CHAR' [] CHR ''b'' CHR ''c''] CHR 0x00 CHR 0x00), [])"
    by (simp add: eval_simps)
  have b: "matchAndAddPossiblyAndedExpr True ''c'' =
     Inr (Some (RegexParserNode CHAR' [] CHR ''c'' CHR ''d''), [])"
    by (simp add: eval_simps)
  have d: "matchAndAddPossiblyAndedExpr True ''a|)'' =
     Inr (Some (RegexParserNode CHAR' [] CHR ''a'' CHR ''b''), CHR ''|'' # '')'')"
    by (simp add: eval_simps)
  have e: "matchAndAddPossiblyAndedExpr True '')'' = Inr (None, '')'')"
    by (simp add: eval_simps)
  from sa sc a b d e
    alternation_of_sequences [of "''ab''" "''c''" True _ _ "''a|)''" _ "'')''" "'')''"]
  show ?thesis by simp
qed

end
